theory Spec2Isabelle
  imports Main
begin

section \<open>Values of the provider's response\<close>

text \<open>
  \<^verbatim>\<open>response.json()\<close> yields a Python value built from \<^verbatim>\<open>None\<close>, booleans, numbers,
  strings, lists and dictionaries with string keys. Numbers are restricted to integers
  (floating point is outside this development). A dictionary is an association list read
  with \<open>map_of\<close>. Python's \<^verbatim>\<open>None\<close> is \<open>JNull\<close>, also where a function of the source
  returns \<^verbatim>\<open>None\<close>.

  A Python \<^verbatim>\<open>str\<close> is the list of its code points. A string literal of the source is
  written \<open>ustr ''...''\<close>.
\<close>

type_synonym pystr = "nat list"

definition cp :: "char \<Rightarrow> nat" where
  "cp c = of_char c"

definition ustr :: "string \<Rightarrow> pystr" where
  "ustr s = map cp s"

datatype json =
    JNull
  | JBool bool
  | JInt int
  | JStr pystr
  | JArr "json list"
  | JObj "(pystr \<times> json) list"

text \<open>The exceptions of the source; everything else is \<open>OtherException\<close>.\<close>

datatype py_exc =
    RequestException
  | KeyError
  | IndexError
  | TypeError
  | AttributeError
  | OtherException

text \<open>Truth value of a Python object, as \<^verbatim>\<open>if x:\<close> tests it.\<close>

fun truthy :: "json \<Rightarrow> bool" where
  "truthy JNull = False"
| "truthy (JBool b) = b"
| "truthy (JInt n) = (n \<noteq> 0)"
| "truthy (JStr s) = (s \<noteq> [])"
| "truthy (JArr xs) = (xs \<noteq> [])"
| "truthy (JObj kvs) = (kvs \<noteq> [])"

text \<open>
  A subscript \<^verbatim>\<open>v[k]\<close> with a string literal or a non-negative integer literal, the two
  forms the source uses. A dictionary raises \<^verbatim>\<open>KeyError\<close> on a missing key (an integer is
  never a key of a decoded JSON object); a list or a string raises \<^verbatim>\<open>IndexError\<close> out of
  range and \<^verbatim>\<open>TypeError\<close> on a string subscript; \<^verbatim>\<open>None\<close>, booleans and numbers are
  not subscriptable and raise \<^verbatim>\<open>TypeError\<close>.
\<close>

datatype py_key = KStr pystr | KIdx nat

fun subscript :: "json \<Rightarrow> py_key \<Rightarrow> py_exc + json" where
  "subscript (JObj kvs) (KStr k) =
     (case map_of kvs k of None \<Rightarrow> Inl KeyError | Some v \<Rightarrow> Inr v)"
| "subscript (JObj kvs) (KIdx i) = Inl KeyError"
| "subscript (JArr xs) (KIdx i) = (if i < length xs then Inr (xs ! i) else Inl IndexError)"
| "subscript (JArr xs) (KStr k) = Inl TypeError"
| "subscript (JStr s) (KIdx i) = (if i < length s then Inr (JStr [s ! i]) else Inl IndexError)"
| "subscript (JStr s) (KStr k) = Inl TypeError"
| "subscript JNull k = Inl TypeError"
| "subscript (JBool b) k = Inl TypeError"
| "subscript (JInt n) k = Inl TypeError"

text \<open>A chain of subscripts, left to right; the first exception ends it.\<close>

fun subscripts :: "json \<Rightarrow> py_key list \<Rightarrow> py_exc + json" where
  "subscripts v [] = Inr v"
| "subscripts v (k # ks) =
     (case subscript v k of Inl e \<Rightarrow> Inl e | Inr w \<Rightarrow> subscripts w ks)"

section \<open>Tweet scraper functions\<close>

definition legacy_path :: "py_key list" where
  "legacy_path =
     [KStr (ustr ''result''), KStr (ustr ''timeline''), KStr (ustr ''instructions''), KIdx 1,
      KStr (ustr ''entries''), KIdx 0, KStr (ustr ''content''), KStr (ustr ''itemContent''),
      KStr (ustr ''tweet_results''), KStr (ustr ''result''), KStr (ustr ''legacy'')]"

text \<open>
  \<^verbatim>\<open>try: return tweet_data[...]...['full_text']  except (KeyError, IndexError): return None\<close>.
  Any other exception leaves the function.
\<close>

definition get_tweet_text :: "json \<Rightarrow> py_exc + json" where
  "get_tweet_text tweet_data =
     (case subscripts tweet_data (legacy_path @ [KStr (ustr ''full_text'')]) of
        Inl KeyError \<Rightarrow> Inr JNull
      | Inl IndexError \<Rightarrow> Inr JNull
      | Inl e \<Rightarrow> Inl e
      | Inr v \<Rightarrow> Inr v)"

definition get_tweet_id :: "json \<Rightarrow> py_exc + json" where
  "get_tweet_id tweet_data =
     (case subscripts tweet_data (legacy_path @ [KStr (ustr ''id_str'')]) of
        Inl KeyError \<Rightarrow> Inr JNull
      | Inl IndexError \<Rightarrow> Inr JNull
      | Inl e \<Rightarrow> Inl e
      | Inr v \<Rightarrow> Inr v)"

text \<open>The response in the provider's expected shape, holding one most-recent item.\<close>

definition singleton_obj :: "string \<Rightarrow> json \<Rightarrow> json" where
  "singleton_obj k v = JObj [(ustr k, v)]"

definition response_with :: "json \<Rightarrow> json \<Rightarrow> json" where
  "response_with full_text id_str =
     singleton_obj ''result'' (singleton_obj ''timeline'' (singleton_obj ''instructions''
       (JArr [JObj [],
              singleton_obj ''entries''
                (JArr [singleton_obj ''content'' (singleton_obj ''itemContent'' (singleton_obj ''tweet_results''
                   (singleton_obj ''result'' (singleton_obj ''legacy''
                      (JObj [(ustr ''full_text'', full_text), (ustr ''id_str'', id_str)])))))])])))"

text \<open>
  Python's \<^verbatim>\<open>==\<close> on decoded JSON values: a boolean is the integer 0 or 1, lists are
  compared element by element, dictionaries as sets of entries.
\<close>

fun py_eq :: "json \<Rightarrow> json \<Rightarrow> bool" where
  "py_eq JNull JNull = True"
| "py_eq (JBool a) (JBool b) = (a = b)"
| "py_eq (JBool a) (JInt n) = ((if a then 1 else 0) = n)"
| "py_eq (JInt n) (JBool b) = (n = (if b then 1 else 0))"
| "py_eq (JInt m) (JInt n) = (m = n)"
| "py_eq (JStr s) (JStr t) = (s = t)"
| "py_eq (JArr xs) (JArr ys) = list_all2 py_eq xs ys"
| "py_eq (JObj xs) (JObj ys) =
     (length xs = length ys \<and>
      list_all (\<lambda>kv. case map_of ys (fst kv) of None \<Rightarrow> False
                                                 | Some w \<Rightarrow> py_eq (snd kv) w) xs)"
| "py_eq _ _ = False"

section \<open>Text\<close>

text \<open>
  Three operations of the source read Python's Unicode tables, which are not part of the
  repository: \<^verbatim>\<open>str.lower()\<close>, the class \<^verbatim>\<open>\w\<close> of \<^verbatim>\<open>re\<close>, and the whitespace that
  \<^verbatim>\<open>str.strip()\<close> removes. They are parameters of the model: \<open>lower U s\<close> is
  \<^verbatim>\<open>s.lower()\<close>, \<open>is_word U c\<close> says that \<^verbatim>\<open>\w\<close> matches the code point \<open>c\<close>, and
  \<open>is_space U c\<close> that \<^verbatim>\<open>strip\<close> removes it. Nothing is assumed about them, so what is
  proved for every \<open>U\<close> holds for the tables of any Python version.
\<close>

record unicode =
  lower :: "pystr \<Rightarrow> pystr"
  is_word :: "nat \<Rightarrow> bool"
  is_space :: "nat \<Rightarrow> bool"

text \<open>
  On ASCII text the tables are known: \<^verbatim>\<open>lower\<close> changes the letters \<^verbatim>\<open>A\<close> to \<^verbatim>\<open>Z\<close>
  (codes 65 to 90) and nothing else, the word characters are the letters, the digits
  (48 to 57) and the underscore (95), the whitespace is the codes 9 to 13 and 28 to 32.
  \<open>agrees_on_ascii U\<close> says that \<open>U\<close> is such a table; it is the only fact about the
  tables that any statement below uses, and only statements about given ASCII texts use it.
\<close>

definition ascii :: "nat \<Rightarrow> bool" where
  "ascii c \<longleftrightarrow> c < 128"

definition ascii_lower :: "nat \<Rightarrow> nat" where
  "ascii_lower c = (if 65 \<le> c \<and> c \<le> 90 then c + 32 else c)"

definition ascii_word :: "nat \<Rightarrow> bool" where
  "ascii_word c \<longleftrightarrow>
     (97 \<le> c \<and> c \<le> 122) \<or> (65 \<le> c \<and> c \<le> 90) \<or> (48 \<le> c \<and> c \<le> 57) \<or> c = 95"

definition ascii_space :: "nat \<Rightarrow> bool" where
  "ascii_space c \<longleftrightarrow> (9 \<le> c \<and> c \<le> 13) \<or> (28 \<le> c \<and> c \<le> 32)"

definition agrees_on_ascii :: "unicode \<Rightarrow> bool" where
  "agrees_on_ascii U \<longleftrightarrow>
     (\<forall>s. list_all ascii s \<longrightarrow> lower U s = map ascii_lower s) \<and>
     (\<forall>c. ascii c \<longrightarrow> is_word U c = ascii_word c) \<and>
     (\<forall>c. ascii c \<longrightarrow> is_space U c = ascii_space c)"

text \<open>
  One such table, used to run the model on given ASCII texts: outside ASCII it changes no
  letter and has no word character and no whitespace.
\<close>

definition ascii_tables :: unicode where
  "ascii_tables = \<lparr>lower = map ascii_lower, is_word = ascii_word, is_space = ascii_space\<rparr>"

text \<open>\<^verbatim>\<open>text.startswith(p)\<close>.\<close>

fun startswith :: "pystr \<Rightarrow> pystr \<Rightarrow> bool" where
  "startswith s [] = True"
| "startswith [] (p # ps) = False"
| "startswith (c # cs) (p # ps) = (c = p \<and> startswith cs ps)"

text \<open>\<^verbatim>\<open>needle in text\<close> on strings: \<open>needle\<close> occurs as a contiguous part of \<open>text\<close>.\<close>

fun contains :: "pystr \<Rightarrow> pystr \<Rightarrow> bool" where
  "contains [] needle = (needle = [])"
| "contains (c # cs) needle = (startswith (c # cs) needle \<or> contains cs needle)"

text \<open>
  \<^verbatim>\<open>re.findall(r"#\w+", text)\<close>: the scan goes left to right; where a \<^verbatim>\<open>#\<close> is followed by
  at least one word character the match takes the whole run of word characters and the
  scan goes on after it; anywhere else the scan moves one character on.
\<close>

function findall_hashtags :: "unicode \<Rightarrow> pystr \<Rightarrow> pystr list" where
  "findall_hashtags U [] = []"
| "findall_hashtags U (c # cs) =
     (if c = cp CHR ''#'' \<and> takeWhile (is_word U) cs \<noteq> []
      then (c # takeWhile (is_word U) cs) # findall_hashtags U (dropWhile (is_word U) cs)
      else findall_hashtags U cs)"
  by pat_completeness auto
termination
  by (relation "measure (\<lambda>(U, s). length s)")
     (auto simp: le_imp_less_Suc length_dropWhile_le)

text \<open>\<^verbatim>\<open>sep.join(xs)\<close>.\<close>

fun join :: "pystr \<Rightarrow> pystr list \<Rightarrow> pystr" where
  "join sep [] = []"
| "join sep [x] = x"
| "join sep (x # y # ys) = x @ sep @ join sep (y # ys)"

text \<open>\<^verbatim>\<open>s.strip()\<close> removes leading and trailing whitespace.\<close>

definition strip :: "unicode \<Rightarrow> pystr \<Rightarrow> pystr" where
  "strip U s = rev (dropWhile (is_space U) (rev (dropWhile (is_space U) s)))"

text \<open>\<^verbatim>\<open>s.split(",")\<close>: the pieces between the commas, empty pieces kept.\<close>

fun split_acc :: "nat \<Rightarrow> pystr \<Rightarrow> pystr \<Rightarrow> pystr list" where
  "split_acc sep acc [] = [rev acc]"
| "split_acc sep acc (c # cs) =
     (if c = sep then rev acc # split_acc sep [] cs else split_acc sep (c # acc) cs)"

definition split :: "nat \<Rightarrow> pystr \<Rightarrow> pystr list" where
  "split sep s = split_acc sep [] s"

section \<open>The polling worker\<close>

text \<open>
  What one iteration of the loop receives from outside: the outcome of the HTTP request of
  \<^verbatim>\<open>get_user_tweets\<close> (the decoded body, or the exception raised by \<^verbatim>\<open>requests.get\<close>,
  \<^verbatim>\<open>raise_for_status\<close> or \<^verbatim>\<open>json\<close>), the string \<^verbatim>\<open>get_ist_time()\<close> would return, and the
  time the blocking calls of the iteration take.
\<close>

datatype http_outcome = Returns json | Raises py_exc

record poll_env =
  http :: http_outcome
  timestamp :: pystr
  io_time :: nat

text \<open>
  A message handed to \<^verbatim>\<open>send_telegram_message\<close>. \<open>NewTweet\<close> keeps the values the f-string
  of the source renders: timestamp, Twitter user, tweet id, type, hashtags, content (the
  link repeats the id). \<open>MonitorError\<close> is \<^verbatim>\<open>err_msg\<close>: the Twitter user and the exception.
\<close>

datatype message =
    NewTweet pystr pystr json pystr pystr pystr
  | MonitorError pystr py_exc

text \<open>
  The effects of the worker, in order: the log lines, the messages sent with their target
  chat, and the calls of \<^verbatim>\<open>time.sleep\<close>. \<^verbatim>\<open>send_telegram_message\<close> catches every exception
  and only logs a failed delivery, so it never changes the control flow.
\<close>

datatype effect =
    LogStarted
  | LogFetchError
  | LogSkipped json
  | LogMonitorError py_exc
  | LogStopped
  | Send message int
  | Sleep nat

text \<open>
  \<^verbatim>\<open>get_user_tweets\<close>: a \<^verbatim>\<open>RequestException\<close> is logged and \<^verbatim>\<open>None\<close> is returned; any
  other exception leaves the function.
\<close>

fun get_user_tweets :: "http_outcome \<Rightarrow> py_exc + (effect list \<times> json)" where
  "get_user_tweets (Returns j) = Inr ([], j)"
| "get_user_tweets (Raises RequestException) = Inr ([LogFetchError], JNull)"
| "get_user_tweets (Raises e) = Inl e"

text \<open>\<^verbatim>\<open>any(keyword.lower() in tweet_text.lower() for keyword in keywords)\<close>.\<close>

definition keyword_match :: "unicode \<Rightarrow> pystr list \<Rightarrow> pystr \<Rightarrow> bool" where
  "keyword_match U keywords tweet_text =
     list_ex (\<lambda>keyword. contains (lower U tweet_text) (lower U keyword)) keywords"

text \<open>
  Lines 113 to 117: whether the tweet is skipped by the keyword filter. A \<^verbatim>\<open>tweet_text\<close>
  that is not a string has no \<^verbatim>\<open>lower\<close>.
\<close>

definition keyword_skip :: "unicode \<Rightarrow> pystr list \<Rightarrow> json \<Rightarrow> py_exc + bool" where
  "keyword_skip U keywords tweet_text =
     (if keywords \<noteq> [] then
        (case tweet_text of
           JStr s \<Rightarrow> Inr (\<not> keyword_match U keywords s)
         | _ \<Rightarrow> Inl AttributeError)
      else Inr False)"

definition retweet_flag :: "pystr \<Rightarrow> bool" where
  "retweet_flag tweet_text = startswith tweet_text (ustr ''RT '')"

definition retweet_text :: "pystr \<Rightarrow> pystr" where
  "retweet_text tweet_text =
     (if retweet_flag tweet_text then ustr ''Retweet'' else ustr ''Original Tweet'')"

definition hashtags_text :: "unicode \<Rightarrow> pystr \<Rightarrow> pystr" where
  "hashtags_text U tweet_text =
     (let hashtags = findall_hashtags U tweet_text
      in if hashtags \<noteq> [] then join (ustr '', '') hashtags else ustr ''None'')"

text \<open>
  Lines 118 to 135. \<^verbatim>\<open>latest_tweet_id\<close> is assigned first; a \<^verbatim>\<open>tweet_text\<close> that is not a
  string then fails at \<^verbatim>\<open>startswith\<close>. The result is the new \<^verbatim>\<open>latest_tweet_id\<close>, the
  effects so far and the exception raised, if any.
\<close>

definition notify ::
  "unicode \<Rightarrow> pystr \<Rightarrow> int \<Rightarrow> poll_env \<Rightarrow> effect list \<Rightarrow> json \<Rightarrow> json
     \<Rightarrow> json option \<times> effect list \<times> py_exc option" where
  "notify U twitter_user_id target_chat_id env logs tweet_text tweet_id =
     (case tweet_text of
        JStr s \<Rightarrow>
          (Some tweet_id,
           logs @ [Send (NewTweet (timestamp env) twitter_user_id tweet_id
                           (retweet_text s) (hashtags_text U s) s) target_chat_id,
                   Sleep 5],
           None)
      | _ \<Rightarrow> (Some tweet_id, logs, Some AttributeError))"

text \<open>\<^verbatim>\<open>latest_tweet_id is None or tweet_id != latest_tweet_id\<close>.\<close>

definition is_new :: "json option \<Rightarrow> json \<Rightarrow> bool" where
  "is_new latest_tweet_id tweet_id =
     (case latest_tweet_id of None \<Rightarrow> True | Some l \<Rightarrow> \<not> py_eq tweet_id l)"

text \<open>
  The body of the \<^verbatim>\<open>try\<close> block, lines 107 to 136. \<^verbatim>\<open>latest_tweet_id\<close> is \<open>None\<close> while it
  is Python's \<^verbatim>\<open>None\<close>.
\<close>

definition poll_try ::
  "unicode \<Rightarrow> pystr \<Rightarrow> int \<Rightarrow> pystr list \<Rightarrow> json option \<Rightarrow> poll_env
     \<Rightarrow> json option \<times> effect list \<times> py_exc option" where
  "poll_try U twitter_user_id target_chat_id keywords latest_tweet_id env =
     (case get_user_tweets (http env) of
        Inl e \<Rightarrow> (latest_tweet_id, [], Some e)
      | Inr (logs, tweets_data) \<Rightarrow>
          if truthy tweets_data then
            (case get_tweet_text tweets_data of
               Inl e \<Rightarrow> (latest_tweet_id, logs, Some e)
             | Inr tweet_text \<Rightarrow>
                 (case get_tweet_id tweets_data of
                    Inl e \<Rightarrow> (latest_tweet_id, logs, Some e)
                  | Inr tweet_id \<Rightarrow>
                      if truthy tweet_text \<and> truthy tweet_id \<and> is_new latest_tweet_id tweet_id
                      then
                        (case keyword_skip U keywords tweet_text of
                           Inl e \<Rightarrow> (latest_tweet_id, logs, Some e)
                         | Inr True \<Rightarrow>
                             (latest_tweet_id, logs @ [LogSkipped tweet_id, Sleep 5], None)
                         | Inr False \<Rightarrow>
                             notify U twitter_user_id target_chat_id env logs tweet_text tweet_id)
                      else (latest_tweet_id, logs @ [Sleep 5], None)))
          else (latest_tweet_id, logs @ [Sleep 5], None))"

text \<open>
  One iteration: the \<^verbatim>\<open>try\<close> block and its handler \<^verbatim>\<open>except Exception\<close>, which logs the
  error, sends it to the chat and sleeps.
\<close>

definition poll ::
  "unicode \<Rightarrow> pystr \<Rightarrow> int \<Rightarrow> pystr list \<Rightarrow> json option \<Rightarrow> poll_env
     \<Rightarrow> json option \<times> effect list" where
  "poll U twitter_user_id target_chat_id keywords latest_tweet_id env =
     (case poll_try U twitter_user_id target_chat_id keywords latest_tweet_id env of
        (latest, effs, None) \<Rightarrow> (latest, effs)
      | (latest, effs, Some e) \<Rightarrow>
          (latest,
           effs @ [LogMonitorError e, Send (MonitorError twitter_user_id e) target_chat_id,
                   Sleep 5]))"

text \<open>
  The stop event as the worker sees it: the time at which \<^verbatim>\<open>set()\<close> is called, if ever.
  It is never cleared.
\<close>

definition is_set :: "nat option \<Rightarrow> nat \<Rightarrow> bool" where
  "is_set stop_event now = (case stop_event of None \<Rightarrow> False | Some t \<Rightarrow> t \<le> now)"

text \<open>
  The time an iteration takes: its blocking calls, then every \<^verbatim>\<open>time.sleep\<close> in full.
\<close>

fun elapsed :: "effect list \<Rightarrow> nat" where
  "elapsed [] = 0"
| "elapsed (Sleep n # effs) = n + elapsed effs"
| "elapsed (e # effs) = elapsed effs"

text \<open>
  The result of running the loop on the iterations the environment provides:
  \<open>stopped_at\<close> is the time at which the loop was left, \<open>None\<close> while the worker is still in
  the loop when the provided iterations are used up.
\<close>

record run =
  stopped_at :: "nat option"
  latest :: "json option"
  effects :: "effect list"

text \<open>\<^verbatim>\<open>while not stop_event.is_set(): ...\<close>, started at time \<open>now\<close>.\<close>

fun monitor_loop ::
  "unicode \<Rightarrow> pystr \<Rightarrow> int \<Rightarrow> nat option \<Rightarrow> pystr list \<Rightarrow> nat \<Rightarrow> json option
     \<Rightarrow> poll_env list \<Rightarrow> run" where
  "monitor_loop U twitter_user_id target_chat_id stop_event keywords now latest_tweet_id [] =
     (if is_set stop_event now
      then \<lparr>stopped_at = Some now, latest = latest_tweet_id, effects = [LogStopped]\<rparr>
      else \<lparr>stopped_at = None, latest = latest_tweet_id, effects = []\<rparr>)"
| "monitor_loop U twitter_user_id target_chat_id stop_event keywords now latest_tweet_id
       (env # envs) =
     (if is_set stop_event now
      then \<lparr>stopped_at = Some now, latest = latest_tweet_id, effects = [LogStopped]\<rparr>
      else
        (case poll U twitter_user_id target_chat_id keywords latest_tweet_id env of
           (latest', effs) \<Rightarrow>
             (let r = monitor_loop U twitter_user_id target_chat_id stop_event keywords
                        (now + io_time env + elapsed effs) latest' envs
              in r\<lparr>effects := effs @ effects r\<rparr>)))"

definition monitor_tweets ::
  "unicode \<Rightarrow> pystr \<Rightarrow> int \<Rightarrow> nat option \<Rightarrow> pystr list \<Rightarrow> poll_env list \<Rightarrow> run" where
  "monitor_tweets U twitter_user_id target_chat_id stop_event keywords envs =
     (let r = monitor_loop U twitter_user_id target_chat_id stop_event keywords 0 None envs
      in r\<lparr>effects := LogStarted # effects r\<rparr>)"

section \<open>The bot handlers and the dictionary of stop events\<close>

text \<open>
  \<^verbatim>\<open>monitor_flags\<close> is a dictionary from (chat id, Twitter user id) to a
  \<^verbatim>\<open>threading.Event\<close>. The dictionary is an association list in insertion order; an event is
  its number of creation, and \<open>events_set\<close> holds the events whose flag is set.
  \<open>threads\<close> are the worker threads started so far, with their arguments.
\<close>

type_synonym key = "int \<times> pystr"

record thread_args =
  t_twitter_user_id :: pystr
  t_target_chat_id :: int
  t_stop_event :: nat
  t_keywords :: "pystr list"

record bot_state =
  monitor_flags :: "(key \<times> nat) list"
  events_set :: "nat set"
  next_event :: nat
  threads :: "thread_args list"

text \<open>\<^verbatim>\<open>d[k] = v\<close> and \<^verbatim>\<open>del d[k]\<close> on the association list.\<close>

fun dict_set :: "'k \<Rightarrow> 'v \<Rightarrow> ('k \<times> 'v) list \<Rightarrow> ('k \<times> 'v) list" where
  "dict_set k v [] = [(k, v)]"
| "dict_set k v (kv # d) = (if fst kv = k then (k, v) # d else kv # dict_set k v d)"

definition dict_del :: "'k \<Rightarrow> ('k \<times> 'v) list \<Rightarrow> ('k \<times> 'v) list" where
  "dict_del k d = filter (\<lambda>kv. fst kv \<noteq> k) d"

text \<open>The texts of \<^verbatim>\<open>reply_text\<close> in the two handlers.\<close>

datatype reply =
    ConfigurationReceived
  | StoppedAll nat
  | StoppedOne pystr
  | NoActiveMonitor pystr

text \<open>Lines 159 to 163: the keywords typed by the user.\<close>

definition parse_keywords :: "unicode \<Rightarrow> pystr \<Rightarrow> pystr list" where
  "parse_keywords U message_text =
     (let text = strip U message_text
      in if lower U text = ustr ''none'' then []
         else map (strip U)
                (filter (\<lambda>word. strip U word \<noteq> []) (split (cp CHR '','') text)))"

text \<open>
  \<^verbatim>\<open>receive_keywords\<close>: \<open>message_text\<close> and \<open>chat_id\<close> come from the update,
  \<open>twitter_user_id\<close> from \<^verbatim>\<open>context.user_data\<close>.
\<close>

definition receive_keywords ::
  "unicode \<Rightarrow> pystr \<Rightarrow> int \<Rightarrow> pystr \<Rightarrow> bot_state \<Rightarrow> reply \<times> bot_state" where
  "receive_keywords U message_text target_chat_id twitter_user_id s =
     (let keywords = parse_keywords U message_text;
          stop_event = next_event s
      in (ConfigurationReceived,
          s\<lparr>monitor_flags := dict_set (target_chat_id, twitter_user_id) stop_event (monitor_flags s),
            next_event := Suc (next_event s),
            threads := threads s @
              [\<lparr>t_twitter_user_id = twitter_user_id, t_target_chat_id = target_chat_id,
                t_stop_event = stop_event, t_keywords = keywords\<rparr>]\<rparr>))"

text \<open>
  Lines 187 to 192: the loop over \<^verbatim>\<open>list(monitor_flags.keys())\<close>. \<^verbatim>\<open>monitor_flags[key]\<close>
  raises \<^verbatim>\<open>KeyError\<close> on a key that is no longer there.
\<close>

fun stop_all :: "int \<Rightarrow> key list \<Rightarrow> nat \<Rightarrow> bot_state \<Rightarrow> py_exc + (nat \<times> bot_state)" where
  "stop_all chat_id [] count s = Inr (count, s)"
| "stop_all chat_id (key # keys) count s =
     (if fst key = chat_id then
        (case map_of (monitor_flags s) key of
           None \<Rightarrow> Inl KeyError
         | Some ev \<Rightarrow>
             stop_all chat_id keys (count + 1)
               (s\<lparr>events_set := insert ev (events_set s),
                  monitor_flags := dict_del key (monitor_flags s)\<rparr>))
      else stop_all chat_id keys count s)"

definition receive_stop ::
  "unicode \<Rightarrow> pystr \<Rightarrow> int \<Rightarrow> bot_state \<Rightarrow> py_exc + (reply \<times> bot_state)" where
  "receive_stop U message_text chat_id s =
     (let input_text = strip U message_text
      in if lower U input_text = ustr ''all'' then
           (case stop_all chat_id (map fst (monitor_flags s)) 0 s of
              Inl e \<Rightarrow> Inl e
            | Inr (count, s') \<Rightarrow> Inr (StoppedAll count, s'))
         else
           (let key = (chat_id, input_text)
            in case map_of (monitor_flags s) key of
                 Some ev \<Rightarrow>
                   Inr (StoppedOne input_text,
                        s\<lparr>events_set := insert ev (events_set s),
                          monitor_flags := dict_del key (monitor_flags s)\<rparr>)
               | None \<Rightarrow> Inr (NoActiveMonitor input_text, s)))"


section \<open>Notions used to state the properties\<close>

text \<open>
  A response holds a non-empty item with text \<open>text\<close> and id \<open>tweet_id\<close>: the response is
  not falsy, both extractions succeed, the text is a non-empty string and the id is not
  falsy (line 111).
\<close>

definition has_item :: "json \<Rightarrow> pystr \<Rightarrow> json \<Rightarrow> bool" where
  "has_item tweets_data text tweet_id \<longleftrightarrow>
     truthy tweets_data \<and> get_tweet_text tweets_data = Inr (JStr text) \<and>
     get_tweet_id tweets_data = Inr tweet_id \<and> text \<noteq> [] \<and> truthy tweet_id"

text \<open>The messages sent, and the ids of the tweets notified, in order.\<close>

fun sent :: "effect list \<Rightarrow> (message \<times> int) list" where
  "sent [] = []"
| "sent (Send m c # effs) = (m, c) # sent effs"
| "sent (e # effs) = sent effs"

fun notified :: "effect list \<Rightarrow> json list" where
  "notified [] = []"
| "notified (Send (NewTweet ts u i ty h t) c # effs) = i # notified effs"
| "notified (e # effs) = notified effs"

text \<open>
  The tag list in the words of the specification: the substrings that are a hash followed
  by word characters, read from left to right, every one taken as long as it goes. The
  word characters are those of the same tables.
\<close>

inductive hashtags_of :: "unicode \<Rightarrow> pystr \<Rightarrow> pystr list \<Rightarrow> bool" for U :: unicode where
  no_text: "hashtags_of U [] []"
| tag: "w \<noteq> [] \<Longrightarrow> list_all (is_word U) w \<Longrightarrow> rest = [] \<or> \<not> is_word U (hd rest) \<Longrightarrow>
        hashtags_of U rest tags \<Longrightarrow>
        hashtags_of U (cp CHR ''#'' # w @ rest) ((cp CHR ''#'' # w) # tags)"
| no_tag: "\<not> (c = cp CHR ''#'' \<and> cs \<noteq> [] \<and> is_word U (hd cs)) \<Longrightarrow>
        hashtags_of U cs tags \<Longrightarrow> hashtags_of U (c # cs) tags"

section \<open>Code points and the tables on ASCII text\<close>

lemma ustr_eq [simp]: "ustr a = ustr b \<longleftrightarrow> a = b"
proof -
  have "inj cp" by (simp add: inj_def cp_def)
  then show ?thesis by (simp add: ustr_def)
qed

lemma ustr_Nil [simp]: "ustr s = [] \<longleftrightarrow> s = []"
  by (simp add: ustr_def)

lemma length_ustr [simp]: "length (ustr s) = length s"
  by (simp add: ustr_def)

lemma agrees_on_ascii_tables: "agrees_on_ascii ascii_tables"
  by (simp add: agrees_on_ascii_def ascii_tables_def)

lemma lower_ascii:
  "agrees_on_ascii U \<Longrightarrow> list_all ascii s \<Longrightarrow> lower U s = map ascii_lower s"
  by (simp add: agrees_on_ascii_def)

lemma is_word_ascii: "agrees_on_ascii U \<Longrightarrow> ascii c \<Longrightarrow> is_word U c = ascii_word c"
  by (simp add: agrees_on_ascii_def)

lemma is_space_ascii: "agrees_on_ascii U \<Longrightarrow> ascii c \<Longrightarrow> is_space U c = ascii_space c"
  by (simp add: agrees_on_ascii_def)

text \<open>The definitions that run the model on a given ASCII text.\<close>

lemmas ascii_eval =
  ustr_def cp_def ascii_def ascii_tables_def ascii_lower_def ascii_word_def ascii_space_def
  strip_def

section \<open>Extraction\<close>

lemma get_tweet_text_response_with [simp]:
  "get_tweet_text (response_with t i) = Inr t"
  by (simp add: get_tweet_text_def response_with_def singleton_obj_def legacy_path_def)

lemma get_tweet_id_response_with [simp]:
  "get_tweet_id (response_with t i) = Inr i"
  by (simp add: get_tweet_id_def response_with_def singleton_obj_def legacy_path_def)

lemma truthy_response_with [simp]: "truthy (response_with t i)"
  by (simp add: response_with_def singleton_obj_def)

lemma has_item_response_with:
  "has_item (response_with (JStr t) i) t i \<longleftrightarrow> t \<noteq> [] \<and> truthy i"
  by (simp add: has_item_def)

text \<open>
  C6 (the code departs from the claim): a response whose \<^verbatim>\<open>result\<close> is \<^verbatim>\<open>null\<close> makes
  both extractions raise \<^verbatim>\<open>TypeError\<close>, which \<^verbatim>\<open>except (KeyError, IndexError)\<close> does
  not catch; the worker's handler then reports it to the chat as an error.
\<close>

theorem extraction_raises_on_null_result:
  "get_tweet_text (JObj [(ustr ''result'', JNull)]) = Inl TypeError \<and>
   get_tweet_id (JObj [(ustr ''result'', JNull)]) = Inl TypeError \<and>
   poll U u c kws l \<lparr>http = Returns (JObj [(ustr ''result'', JNull)]), timestamp = ts, io_time = d\<rparr> =
     (l, [LogMonitorError TypeError, Send (MonitorError u TypeError) c, Sleep 5])"
  by (simp add: get_tweet_text_def get_tweet_id_def legacy_path_def poll_def poll_try_def)

section \<open>The dictionary of stop events\<close>



lemma keys_dict_set: "fst ` set (dict_set k v d) = insert k (fst ` set d)"
  by (induction d) auto

lemma distinct_dict_set: "distinct (map fst d) \<Longrightarrow> distinct (map fst (dict_set k v d))"
  by (induction d) (auto simp: keys_dict_set)

lemma distinct_dict_del: "distinct (map fst d) \<Longrightarrow> distinct (map fst (dict_del k d))"
  by (simp add: dict_del_def distinct_map_filter)

subsection \<open>Starting a monitor\<close>



subsection \<open>Stopping one monitor\<close>



subsection \<open>Stopping all monitors of a chat\<close>

lemma stop_all_result:
  assumes "distinct (map fst (monitor_flags s))" and "distinct keys"
    and "set keys \<subseteq> fst ` set (monitor_flags s)"
  shows "stop_all chat_id keys count s =
     Inr (count + length (filter (\<lambda>k. fst k = chat_id) keys),
          s\<lparr>events_set := events_set s \<union>
                snd ` {kv \<in> set (monitor_flags s). fst (fst kv) = chat_id \<and> fst kv \<in> set keys},
            monitor_flags :=
                filter (\<lambda>kv. \<not> (fst (fst kv) = chat_id \<and> fst kv \<in> set keys)) (monitor_flags s)\<rparr>)"
  using assms
proof (induction keys arbitrary: count s)
  case Nil
  then show ?case by simp
next
  case (Cons key keys)
  show ?case
  proof (cases "fst key = chat_id")
    case False
    have "stop_all chat_id (key # keys) count s = stop_all chat_id keys count s"
      using False by simp
    also have "\<dots> = Inr (count + length (filter (\<lambda>k. fst k = chat_id) keys),
          s\<lparr>events_set := events_set s \<union>
                snd ` {kv \<in> set (monitor_flags s). fst (fst kv) = chat_id \<and> fst kv \<in> set keys},
            monitor_flags :=
                filter (\<lambda>kv. \<not> (fst (fst kv) = chat_id \<and> fst kv \<in> set keys)) (monitor_flags s)\<rparr>)"
      using Cons.prems by (intro Cons.IH) auto
    also have "{kv \<in> set (monitor_flags s). fst (fst kv) = chat_id \<and> fst kv \<in> set keys} =
               {kv \<in> set (monitor_flags s). fst (fst kv) = chat_id \<and> fst kv \<in> set (key # keys)}"
      using False by auto
    also have "filter (\<lambda>kv. \<not> (fst (fst kv) = chat_id \<and> fst kv \<in> set keys)) (monitor_flags s) =
               filter (\<lambda>kv. \<not> (fst (fst kv) = chat_id \<and> fst kv \<in> set (key # keys))) (monitor_flags s)"
      using False by (intro filter_cong) auto
    finally show ?thesis using False by simp
  next
    case True
    from Cons.prems obtain ev where ev: "(key, ev) \<in> set (monitor_flags s)" by auto
    with Cons.prems have lookup: "map_of (monitor_flags s) key = Some ev" by simp
    let ?s1 = "s\<lparr>events_set := insert ev (events_set s),
                 monitor_flags := dict_del key (monitor_flags s)\<rparr>"
    have step: "stop_all chat_id (key # keys) count s = stop_all chat_id keys (count + 1) ?s1"
      using True lookup by simp
    have keys1: "set keys \<subseteq> fst ` set (monitor_flags ?s1)"
    proof
      fix k assume k: "k \<in> set keys"
      with Cons.prems have "k \<noteq> key" and "k \<in> fst ` set (monitor_flags s)" by auto
      then show "k \<in> fst ` set (monitor_flags ?s1)"
        by (auto simp: dict_del_def)
    qed
    have "stop_all chat_id keys (count + 1) ?s1 =
      Inr (count + 1 + length (filter (\<lambda>k. fst k = chat_id) keys),
          ?s1\<lparr>events_set := events_set ?s1 \<union>
                snd ` {kv \<in> set (monitor_flags ?s1). fst (fst kv) = chat_id \<and> fst kv \<in> set keys},
            monitor_flags :=
                filter (\<lambda>kv. \<not> (fst (fst kv) = chat_id \<and> fst kv \<in> set keys)) (monitor_flags ?s1)\<rparr>)"
      using Cons.prems keys1 by (intro Cons.IH) (auto simp: distinct_dict_del)
    moreover have "events_set ?s1 \<union>
                snd ` {kv \<in> set (monitor_flags ?s1). fst (fst kv) = chat_id \<and> fst kv \<in> set keys} =
           events_set s \<union>
                snd ` {kv \<in> set (monitor_flags s). fst (fst kv) = chat_id \<and> fst kv \<in> set (key # keys)}"
    proof -
      have "{kv \<in> set (monitor_flags s). fst (fst kv) = chat_id \<and> fst kv \<in> set (key # keys)} =
            insert (key, ev) {kv \<in> set (monitor_flags ?s1). fst (fst kv) = chat_id \<and> fst kv \<in> set keys}"
        using True ev Cons.prems(1,2) by (auto simp: dict_del_def dest: eq_key_imp_eq_value)
      then show ?thesis by simp
    qed
    moreover have "filter (\<lambda>kv. \<not> (fst (fst kv) = chat_id \<and> fst kv \<in> set keys)) (monitor_flags ?s1) =
        filter (\<lambda>kv. \<not> (fst (fst kv) = chat_id \<and> fst kv \<in> set (key # keys))) (monitor_flags s)"
      using True by (auto simp: dict_del_def intro: filter_cong)
    ultimately show ?thesis using step True by simp
  qed
qed

text \<open>
  C8: on a dictionary (no key twice), \<^verbatim>\<open>all\<close> sets the stop event of every entry of the
  chat and deletes these entries, leaves the entries of other chats as they are, in
  their order, and answers with the number of entries deleted.
\<close>

theorem stop_all_monitors_of_chat:
  assumes "distinct (map fst (monitor_flags s))" and "lower U (strip U message_text) = (ustr ''all'')"
  shows "receive_stop U message_text chat_id s =
     Inr (StoppedAll (length (filter (\<lambda>kv. fst (fst kv) = chat_id) (monitor_flags s))),
          s\<lparr>events_set := events_set s \<union>
                set (map snd (filter (\<lambda>kv. fst (fst kv) = chat_id) (monitor_flags s))),
            monitor_flags := filter (\<lambda>kv. fst (fst kv) \<noteq> chat_id) (monitor_flags s)\<rparr>)"
proof -
  have "snd ` {kv \<in> set (monitor_flags s). fst (fst kv) = chat_id} =
        set (map snd (filter (\<lambda>kv. fst (fst kv) = chat_id) (monitor_flags s)))"
    by auto
  moreover
  have "{kv \<in> set (monitor_flags s). fst (fst kv) = chat_id \<and> fst kv \<in> set (map fst (monitor_flags s))}
      = {kv \<in> set (monitor_flags s). fst (fst kv) = chat_id}" by auto
  moreover have "filter (\<lambda>kv. \<not> (fst (fst kv) = chat_id \<and> fst kv \<in> set (map fst (monitor_flags s)))) (monitor_flags s)
      = filter (\<lambda>kv. fst (fst kv) \<noteq> chat_id) (monitor_flags s)"
    by (intro filter_cong) auto
  moreover have "length (filter (\<lambda>k. fst k = chat_id) (map fst (monitor_flags s))) =
     length (filter (\<lambda>kv. fst (fst kv) = chat_id) (monitor_flags s))"
    by (simp add: filter_map comp_def)
  ultimately show ?thesis
    using assms stop_all_result [of s "map fst (monitor_flags s)" chat_id 0]
    by (simp add: receive_stop_def)
qed

theorem stop_all_monitors_of_chat_witness:
  "distinct (map fst [((7 :: int, ustr ''nasa''), 0 :: nat), ((8, ustr ''nasa''), 1), ((7, ustr ''esa''), 2)]) \<and>
   lower ascii_tables (strip ascii_tables (ustr ''All'')) = (ustr ''all'') \<and>
   receive_stop ascii_tables (ustr ''All'') 7
      \<lparr>monitor_flags = [((7, ustr ''nasa''), 0), ((8, ustr ''nasa''), 1), ((7, ustr ''esa''), 2)],
       events_set = {}, next_event = 3, threads = []\<rparr> =
     Inr (StoppedAll 2,
      \<lparr>monitor_flags = [((8, ustr ''nasa''), 1)], events_set = {0, 2}, next_event = 3, threads = []\<rparr>)"
proof -
  let ?s = "\<lparr>monitor_flags = [((7, ustr ''nasa''), 0), ((8, ustr ''nasa''), 1), ((7, ustr ''esa''), 2)],
       events_set = {}, next_event = 3, threads = []\<rparr>"
  have d: "distinct (map fst (monitor_flags ?s))" by simp
  have a: "lower ascii_tables (strip ascii_tables (ustr ''All'')) = (ustr ''all'')"
    by (simp add: ascii_eval)
  show ?thesis
    using stop_all_monitors_of_chat [OF d a, of 7] d a by simp
qed

lemma receive_keywords_keeps_dictionary:
  "distinct (map fst (monitor_flags s)) \<Longrightarrow>
   distinct (map fst (monitor_flags (snd (receive_keywords U message_text chat_id user s))))"
  by (simp add: receive_keywords_def Let_def distinct_dict_set)

lemma receive_stop_keeps_dictionary:
  assumes "distinct (map fst (monitor_flags s))"
    and "receive_stop U message_text chat_id s = Inr (r, s')"
  shows "distinct (map fst (monitor_flags s'))"
proof (cases "lower U (strip U message_text) = (ustr ''all'')")
  case True
  have "set (map fst (monitor_flags s)) \<subseteq> fst ` set (monitor_flags s)" by simp
  with assms show ?thesis
    using True stop_all_result [of s "map fst (monitor_flags s)" chat_id 0]
    by (auto simp: receive_stop_def distinct_map_filter)
next
  case False
  with assms show ?thesis
    by (auto simp: receive_stop_def Let_def distinct_dict_del split: option.splits)
qed

section \<open>Text\<close>

lemma startswith_iff: "startswith s p \<longleftrightarrow> (\<exists>rest. s = p @ rest)"
  by (induction s p rule: startswith.induct) auto

lemma contains_iff: "contains text needle \<longleftrightarrow> (\<exists>pre post. text = pre @ needle @ post)"
proof (induction "text")
  case Nil
  then show ?case by simp
next
  case (Cons c cs)
  show ?case
  proof
    assume "contains (c # cs) needle"
    then consider "startswith (c # cs) needle" | "contains cs needle" by auto
    then show "\<exists>pre post. c # cs = pre @ needle @ post"
    proof cases
      case 1
      then obtain rest where "c # cs = needle @ rest" by (auto simp: startswith_iff)
      then have "c # cs = [] @ needle @ rest" by simp
      then show ?thesis by blast
    next
      case 2
      with Cons.IH obtain pre post where "cs = pre @ needle @ post" by auto
      then have "c # cs = (c # pre) @ needle @ post" by simp
      then show ?thesis by blast
    qed
  next
    assume "\<exists>pre post. c # cs = pre @ needle @ post"
    then obtain pre post where eq: "c # cs = pre @ needle @ post" by auto
    show "contains (c # cs) needle"
    proof (cases pre)
      case Nil
      with eq have "startswith (c # cs) needle" by (auto simp: startswith_iff)
      then show ?thesis by simp
    next
      case (Cons p pre')
      with eq have "cs = pre' @ needle @ post" by simp
      with Cons.IH have "contains cs needle" by blast
      then show ?thesis by simp
    qed
  qed
qed

lemma keyword_match_iff:
  "keyword_match U keywords tweet_text \<longleftrightarrow>
     (\<exists>keyword \<in> set keywords. \<exists>pre post. lower U tweet_text = pre @ lower U keyword @ post)"
  by (simp add: keyword_match_def list_ex_iff contains_iff)

lemma keyword_match_ascii:
  assumes "agrees_on_ascii U" and "list_all ascii tweet_text"
    and "list_all (list_all ascii) keywords"
  shows "keyword_match U keywords tweet_text = keyword_match ascii_tables keywords tweet_text"
proof -
  have "lower U tweet_text = lower ascii_tables tweet_text"
    using assms(1,2) by (simp add: lower_ascii ascii_tables_def)
  moreover have "lower U keyword = lower ascii_tables keyword" if "keyword \<in> set keywords"
    for keyword
    using that assms(1,3) by (simp add: lower_ascii ascii_tables_def list_all_iff)
  ultimately show ?thesis
    by (simp add: keyword_match_def list_ex_iff)
qed

lemma strip_ascii:
  assumes "agrees_on_ascii U" and "list_all ascii s"
  shows "strip U s = strip ascii_tables s"
proof -
  have sp: "is_space U c = is_space ascii_tables c" if "ascii c" for c
    using that assms(1) by (simp add: is_space_ascii ascii_tables_def)
  have a: "dropWhile (is_space U) s = dropWhile (is_space ascii_tables) s"
    using assms(2) by (intro dropWhile_cong) (auto simp: list_all_iff sp)
  have "list_all ascii (rev (dropWhile (is_space ascii_tables) s))"
    using assms(2) by (auto simp: list_all_iff dest: set_dropWhileD)
  then have "dropWhile (is_space U) (rev (dropWhile (is_space ascii_tables) s)) =
             dropWhile (is_space ascii_tables) (rev (dropWhile (is_space ascii_tables) s))"
    by (intro dropWhile_cong) (auto simp: list_all_iff sp)
  with a show ?thesis by (simp add: strip_def)
qed

lemma retweet_flag_iff: "retweet_flag tweet_text \<longleftrightarrow> (\<exists>rest. tweet_text = ustr ''RT '' @ rest)"
  by (simp add: retweet_flag_def startswith_iff)

lemma findall_hashtags_ascii:
  "agrees_on_ascii U \<Longrightarrow> list_all ascii s \<Longrightarrow>
   findall_hashtags U s = findall_hashtags ascii_tables s"
proof (induction U s rule: findall_hashtags.induct)
  case (1 U)
  show ?case by simp
next
  case (2 U c cs)
  have w: "is_word U x = is_word ascii_tables x" if "x \<in> set cs" for x
    using that "2.prems" by (simp add: is_word_ascii ascii_tables_def list_all_iff)
  have tw: "takeWhile (is_word U) cs = takeWhile (is_word ascii_tables) cs"
    by (intro takeWhile_cong) (auto simp: w)
  have dw: "dropWhile (is_word U) cs = dropWhile (is_word ascii_tables) cs"
    by (intro dropWhile_cong) (auto simp: w)
  have rest: "list_all ascii (dropWhile (is_word U) cs)"
    using "2.prems" by (auto simp: list_all_iff dest: set_dropWhileD)
  have tail: "list_all ascii cs"
    using "2.prems" by simp
  show ?case
  proof (cases "c = cp CHR ''#'' \<and> takeWhile (is_word U) cs \<noteq> []")
    case True
    with "2.IH"(1) "2.prems"(1) rest have "findall_hashtags U (dropWhile (is_word U) cs) =
        findall_hashtags ascii_tables (dropWhile (is_word U) cs)"
      by simp
    moreover have "findall_hashtags U (c # cs) =
        (c # takeWhile (is_word U) cs) # findall_hashtags U (dropWhile (is_word U) cs)"
      using True by simp
    moreover have "c = cp CHR ''#'' \<and> takeWhile (is_word ascii_tables) cs \<noteq> []"
      using True tw by simp
    then have "findall_hashtags ascii_tables (c # cs) =
        (c # takeWhile (is_word ascii_tables) cs) #
          findall_hashtags ascii_tables (dropWhile (is_word ascii_tables) cs)"
      by simp
    ultimately show ?thesis using tw dw by simp
  next
    case False
    with "2.IH"(2) "2.prems"(1) tail have "findall_hashtags U cs = findall_hashtags ascii_tables cs"
      by simp
    moreover have "findall_hashtags U (c # cs) = findall_hashtags U cs"
      using False by auto
    moreover have "\<not> (c = cp CHR ''#'' \<and> takeWhile (is_word ascii_tables) cs \<noteq> [])"
      using False tw by simp
    then have "findall_hashtags ascii_tables (c # cs) = findall_hashtags ascii_tables cs"
      by auto
    ultimately show ?thesis by simp
  qed
qed

lemma hashtags_of_findall: "hashtags_of U tweet_text (findall_hashtags U tweet_text)"
proof (induction U tweet_text rule: findall_hashtags.induct)
  case (1 U)
  show ?case by (simp add: hashtags_of.no_text)
next
  case (2 U c cs)
  show ?case
  proof (cases "c = cp CHR ''#'' \<and> takeWhile (is_word U) cs \<noteq> []")
    case True
    let ?w = "takeWhile (is_word U) cs" and ?rest = "dropWhile (is_word U) cs"
    have "list_all (is_word U) ?w"
      by (auto simp: list_all_iff dest: set_takeWhileD)
    moreover have "?rest = [] \<or> \<not> is_word U (hd ?rest)"
      using hd_dropWhile [of "is_word U" cs] by auto
    moreover have "hashtags_of U ?rest (findall_hashtags U ?rest)"
      using True 2 by simp
    ultimately have "hashtags_of U (cp CHR ''#'' # ?w @ ?rest)
                       ((cp CHR ''#'' # ?w) # findall_hashtags U ?rest)"
      using True by (intro hashtags_of.tag) auto
    then show ?thesis using True by simp
  next
    case False
    then have "\<not> (c = cp CHR ''#'' \<and> cs \<noteq> [] \<and> is_word U (hd cs))"
      by (cases cs) auto
    moreover have "hashtags_of U cs (findall_hashtags U cs)"
      using False 2 by auto
    ultimately have "hashtags_of U (c # cs) (findall_hashtags U cs)"
      by (rule hashtags_of.no_tag)
    then show ?thesis using False by auto
  qed
qed

lemma hashtags_of_unique:
  "hashtags_of U tweet_text tags \<Longrightarrow> tags = findall_hashtags U tweet_text"
proof (induction rule: hashtags_of.induct)
  case no_text
  show ?case by simp
next
  case (tag w rest tags)
  have all: "\<forall>x \<in> set w. is_word U x"
    using tag.hyps(2) by (simp add: list_all_iff)
  have "takeWhile (is_word U) rest = []"
    using tag.hyps(3) by (cases rest) auto
  then have tw: "takeWhile (is_word U) (w @ rest) = w"
    using all by simp
  have "dropWhile (is_word U) rest = rest"
    using tag.hyps(3) by (cases rest) auto
  then have dw: "dropWhile (is_word U) (w @ rest) = rest"
    using all by simp
  show ?case
    using tag.hyps(1) tag.IH tw dw by simp
next
  case (no_tag c cs tags)
  have "\<not> (c = cp CHR ''#'' \<and> takeWhile (is_word U) cs \<noteq> [])"
    using no_tag.hyps(1) by (cases cs) auto
  then show ?case using no_tag.IH by auto
qed

theorem retweet_prefix_counterexample:
  "startswith (ustr ''RT'') (ustr ''RT'') \<and> \<not> retweet_flag (ustr ''RT'') \<and>
   startswith (ustr ''RTs are popular'') (ustr ''RT'') \<and>
   \<not> retweet_flag (ustr ''RTs are popular'')"
  by (simp add: retweet_flag_def ustr_def cp_def)

text \<open>
  C5 (amended): the retweet flag of a text is true exactly when the text starts with the
  three characters \<^verbatim>\<open>RT\<close> and a space. The hashtags are exactly the tag list of the
  specification: the substrings that are a hash followed by word characters, each as long
  as it goes, from left to right, repetitions kept; this holds for every text and every
  table of word characters. For the text \<^verbatim>\<open>RT check this out #space #news\<close> the flag is
  true and the hashtags are \<^verbatim>\<open>#space\<close>, \<^verbatim>\<open>#news\<close> in this order.
\<close>

theorem retweet_flag_and_hashtags:
  "(retweet_flag tweet_text \<longleftrightarrow> (\<exists>rest. tweet_text = ustr ''RT '' @ rest)) \<and>
   (hashtags_of U tweet_text tags \<longleftrightarrow> tags = findall_hashtags U tweet_text) \<and>
   retweet_flag (ustr ''RT check this out #space #news'') \<and>
   (agrees_on_ascii U \<longrightarrow>
      findall_hashtags U (ustr ''RT check this out #space #news'') =
        [ustr ''#space'', ustr ''#news''])"
proof -
  have "retweet_flag (ustr ''RT check this out #space #news'')"
    by (simp add: retweet_flag_def ustr_def cp_def)
  moreover have "findall_hashtags U (ustr ''RT check this out #space #news'') =
      [ustr ''#space'', ustr ''#news'']" if "agrees_on_ascii U"
  proof -
    have "list_all ascii (ustr ''RT check this out #space #news'')"
      by (simp add: ascii_eval)
    then have "findall_hashtags U (ustr ''RT check this out #space #news'') =
        findall_hashtags ascii_tables (ustr ''RT check this out #space #news'')"
      using that by (simp add: findall_hashtags_ascii)
    also have "\<dots> = [ustr ''#space'', ustr ''#news'']"
      by (simp add: ascii_eval)
    finally show ?thesis .
  qed
  moreover have "hashtags_of U tweet_text tags \<longleftrightarrow> tags = findall_hashtags U tweet_text"
    using hashtags_of_findall hashtags_of_unique by blast
  ultimately show ?thesis
    using retweet_flag_iff by blast
qed

text \<open>
  The theorem at two tables: the ASCII one, and one in which the letter e with acute accent
  (code point 233) is a word character as well, on a text that ends with this letter.
\<close>

theorem retweet_flag_and_hashtags_witness:
  "hashtags_of ascii_tables (ustr ''#a #a!#b_1 ## #'') [ustr ''#a'', ustr ''#a'', ustr ''#b_1''] \<and>
   findall_hashtags ascii_tables (ustr ''RT check this out #space #news'') =
     [ustr ''#space'', ustr ''#news''] \<and>
   hashtags_of (ascii_tables\<lparr>is_word := \<lambda>c. ascii_word c \<or> c = 233\<rparr>)
     (ustr ''Un caf'' @ [233] @ ustr '' #caf'' @ [233]) [ustr ''#caf'' @ [233]] \<and>
   retweet_flag (ustr ''RT #a'') \<and> \<not> retweet_flag (ustr ''rt #a'')"
proof -
  let ?V = "ascii_tables\<lparr>is_word := \<lambda>c. ascii_word c \<or> c = 233\<rparr>"
  have "findall_hashtags ascii_tables (ustr ''#a #a!#b_1 ## #'') =
      [ustr ''#a'', ustr ''#a'', ustr ''#b_1'']"
    by (simp add: ascii_eval)
  then have a: "hashtags_of ascii_tables (ustr ''#a #a!#b_1 ## #'')
      [ustr ''#a'', ustr ''#a'', ustr ''#b_1'']"
    using retweet_flag_and_hashtags
            [of "ustr ''#a #a!#b_1 ## #''" ascii_tables "[ustr ''#a'', ustr ''#a'', ustr ''#b_1'']"]
    by simp
  have b: "findall_hashtags ascii_tables (ustr ''RT check this out #space #news'') =
      [ustr ''#space'', ustr ''#news'']"
    using retweet_flag_and_hashtags [of "[]" ascii_tables "[]"] agrees_on_ascii_tables
    by blast
  have "findall_hashtags ?V (ustr ''Un caf'' @ [233] @ ustr '' #caf'' @ [233]) =
      [ustr ''#caf'' @ [233]]"
    by (simp add: ascii_eval)
  then have c: "hashtags_of ?V (ustr ''Un caf'' @ [233] @ ustr '' #caf'' @ [233])
      [ustr ''#caf'' @ [233]]"
    using retweet_flag_and_hashtags
            [of "ustr ''Un caf'' @ [233] @ ustr '' #caf'' @ [233]" ?V "[ustr ''#caf'' @ [233]]"]
    by simp
  have "retweet_flag (ustr ''RT #a'')" and "\<not> retweet_flag (ustr ''rt #a'')"
    by (simp_all add: retweet_flag_def ustr_def cp_def)
  with a b c show ?thesis by simp
qed

section \<open>One iteration of the worker\<close>

lemma poll_item:
  assumes "http env = Returns d" and "has_item d text tid"
  shows "poll U u c kws l env =
    (if is_new l tid then
       (if kws = [] \<or> keyword_match U kws text
        then (Some tid,
              [Send (NewTweet (timestamp env) u tid (retweet_text text) (hashtags_text U text) text) c,
               Sleep 5])
        else (l, [LogSkipped tid, Sleep 5]))
     else (l, [Sleep 5]))"
  using assms
  by (auto simp: poll_def poll_try_def has_item_def keyword_skip_def notify_def)

lemma poll_fetch_error:
  assumes "http env = Raises RequestException"
  shows "poll U u c kws l env = (l, [LogFetchError, Sleep 5])"
  using assms by (simp add: poll_def poll_try_def)

lemma elapsed_append: "elapsed (xs @ ys) = elapsed xs + elapsed ys"
  by (induction xs rule: elapsed.induct) auto

lemma get_user_tweets_logs:
  "get_user_tweets h = Inr (logs, j) \<Longrightarrow> elapsed logs = 0"
  by (cases h rule: get_user_tweets.cases) auto

lemma notify_shape:
  assumes "notify U u c env logs tweet_text tweet_id = (l', effs, exc)" and "elapsed logs = 0"
  shows "case exc of None \<Rightarrow> (\<exists>pre. effs = pre @ [Sleep 5] \<and> elapsed pre = 0)
                   | Some e \<Rightarrow> elapsed effs = 0"
  using assms
  by (cases tweet_text) (auto simp: notify_def elapsed_append)

lemma poll_try_shape:
  assumes "poll_try U u c kws l env = (l', effs, exc)"
  shows "case exc of None \<Rightarrow> (\<exists>pre. effs = pre @ [Sleep 5] \<and> elapsed pre = 0)
                   | Some e \<Rightarrow> elapsed effs = 0"
proof (cases "get_user_tweets (http env)")
  case (Inl e)
  with assms show ?thesis by (auto simp: poll_try_def)
next
  case (Inr r)
  obtain logs tweets_data where r: "r = (logs, tweets_data)" by (cases r)
  have logs: "elapsed logs = 0"
    using Inr r by (auto dest: get_user_tweets_logs)
  show ?thesis
    using assms Inr r logs notify_shape [of U u c env logs _ _ l' effs exc]
    by (auto simp: poll_try_def elapsed_append
        split: if_splits sum.splits bool.splits option.splits)
qed

lemma poll_sleeps:
  "\<exists>pre. snd (poll U u c kws l env) = pre @ [Sleep 5] \<and> elapsed pre = 0"
proof -
  obtain l' effs exc where t: "poll_try U u c kws l env = (l', effs, exc)"
    by (cases "poll_try U u c kws l env") auto
  show ?thesis
  proof (cases exc)
    case None
    with poll_try_shape [OF t] t show ?thesis by (simp add: poll_def)
  next
    case (Some e)
    with poll_try_shape [OF t] have "elapsed effs = 0" by simp
    then have "snd (poll U u c kws l env) =
                 (effs @ [LogMonitorError e, Send (MonitorError u e) c]) @ [Sleep 5] \<and>
               elapsed (effs @ [LogMonitorError e, Send (MonitorError u e) c]) = 0"
      using t Some by (simp add: poll_def elapsed_append)
    then show ?thesis by blast
  qed
qed

lemma elapsed_poll: "elapsed (snd (poll U u c kws l env)) = 5"
  using poll_sleeps [of U u c kws l env] by (auto simp: elapsed_append)

section \<open>The loop of the worker\<close>

lemma notified_append: "notified (xs @ ys) = notified xs @ notified ys"
  by (induction xs rule: notified.induct) auto

lemma monitor_loop_step:
  assumes "\<not> is_set stop now"
  shows "monitor_loop U u c stop kws now l (env # envs) =
     (let r = monitor_loop U u c stop kws (now + io_time env + 5) (fst (poll U u c kws l env)) envs
      in r\<lparr>effects := snd (poll U u c kws l env) @ effects r\<rparr>)"
  using assms elapsed_poll [of U u c kws l env]
  by (cases "poll U u c kws l env") (simp add: Let_def)

lemma fetch_errors_only:
  assumes "\<forall>env \<in> set envs. http env = Raises RequestException"
  shows "stopped_at (monitor_loop U u c None kws now l envs) = None \<and>
         sent (effects (monitor_loop U u c None kws now l envs)) = [] \<and>
         latest (monitor_loop U u c None kws now l envs) = l"
  using assms
proof (induction envs arbitrary: now)
  case Nil
  show ?case by (simp add: is_set_def)
next
  case (Cons env envs)
  have "\<not> is_set None now" by (simp add: is_set_def)
  then show ?case
    using Cons.IH [of "now + io_time env + 5"] Cons.prems
    by (simp add: monitor_loop_step poll_fetch_error Let_def del: monitor_loop.simps)
qed

lemma remdups_adj_starts: "\<exists>r. remdups_adj (x # xs) = x # r"
  by (induction xs) auto

lemma is_new_str: "is_new (Some (JStr p)) (JStr i) \<longleftrightarrow> i \<noteq> p"
  by (simp add: is_new_def)

lemma loop_items_from:
  assumes "list_all2 (\<lambda>env item. \<exists>d. http env = Returns d \<and> has_item d (fst item) (JStr (snd item)))
             envs items"
    and "\<forall>item \<in> set items. kws = [] \<or> keyword_match U kws (fst item)"
  shows "notified (effects (monitor_loop U u c None kws now (Some (JStr p)) envs)) =
           map JStr (tl (remdups_adj (p # map snd items))) \<and>
         latest (monitor_loop U u c None kws now (Some (JStr p)) envs) =
           Some (JStr (last (p # map snd items))) \<and>
         stopped_at (monitor_loop U u c None kws now (Some (JStr p)) envs) = None"
  using assms
proof (induction envs items arbitrary: now p rule: list_all2_induct)
  case Nil
  then show ?case by (simp add: is_set_def)
next
  case (Cons env envs item items)
  obtain t i where item: "item = (t, i)" by (cases item)
  from Cons.hyps(1) item obtain d where d: "http env = Returns d" "has_item d t (JStr i)"
    by auto
  have pass: "kws = [] \<or> keyword_match U kws t" using Cons.prems item by auto
  have rest: "\<forall>item \<in> set items. kws = [] \<or> keyword_match U kws (fst item)"
    using Cons.prems by auto
  note step = monitor_loop_step [of None now U u c kws _ env envs, simplified is_set_def, simplified]
  show ?case
  proof (cases "i = p")
    case True
    have "poll U u c kws (Some (JStr p)) env = (Some (JStr p), [Sleep 5])"
      using poll_item [OF d, of U u c kws "Some (JStr p)"] True by (simp add: is_new_str)
    then show ?thesis
      using Cons.IH [OF rest, of "now + io_time env + 5" p] True item
      by (simp add: step Let_def)
  next
    case False
    have "poll U u c kws (Some (JStr p)) env =
       (Some (JStr i),
        [Send (NewTweet (timestamp env) u (JStr i) (retweet_text t) (hashtags_text U t) t) c, Sleep 5])"
      using poll_item [OF d, of U u c kws "Some (JStr p)"] False pass by (simp add: is_new_str)
    moreover obtain r where "remdups_adj (i # map snd items) = i # r"
      using remdups_adj_starts [of i "map snd items"] by blast
    ultimately show ?thesis
      using Cons.IH [OF rest, of "now + io_time env + 5" i] False item
      by (simp add: step Let_def)
  qed
qed

lemma loop_items:
  assumes "list_all2 (\<lambda>env item. \<exists>d. http env = Returns d \<and> has_item d (fst item) (JStr (snd item)))
             envs items"
    and "\<forall>item \<in> set items. kws = [] \<or> keyword_match U kws (fst item)"
  shows "notified (effects (monitor_loop U u c None kws now None envs)) =
           map JStr (remdups_adj (map snd items)) \<and>
         latest (monitor_loop U u c None kws now None envs) =
           (if items = [] then None else Some (JStr (snd (last items)))) \<and>
         stopped_at (monitor_loop U u c None kws now None envs) = None"
proof (cases envs)
  case Nil
  with assms show ?thesis by (simp add: is_set_def)
next
  case (Cons env envs')
  with assms(1) obtain item items' where items: "items = item # items'"
    and hd: "\<exists>d. http env = Returns d \<and> has_item d (fst item) (JStr (snd item))"
    and tl: "list_all2 (\<lambda>env item. \<exists>d. http env = Returns d \<and> has_item d (fst item) (JStr (snd item)))
             envs' items'"
    by (auto simp: list_all2_Cons1)
  obtain t i where item: "item = (t, i)" by (cases item)
  from hd item obtain d where d: "http env = Returns d" "has_item d t (JStr i)" by auto
  have pass: "kws = [] \<or> keyword_match U kws t" using assms(2) items item by auto
  have rest: "\<forall>item \<in> set items'. kws = [] \<or> keyword_match U kws (fst item)"
    using assms(2) items by auto
  note step = monitor_loop_step [of None now U u c kws _ env envs', simplified is_set_def, simplified]
  have "poll U u c kws None env =
       (Some (JStr i),
        [Send (NewTweet (timestamp env) u (JStr i) (retweet_text t) (hashtags_text U t) t) c, Sleep 5])"
    using poll_item [OF d, of U u c kws None] pass by (simp add: is_new_def)
  moreover obtain r where "remdups_adj (i # map snd items') = i # r"
    using remdups_adj_starts [of i "map snd items'"] by blast
  ultimately show ?thesis
    using loop_items_from [OF tl rest, of u c "now + io_time env + 5" i] Cons items item
    by (simp add: step Let_def last_map)
qed

subsection \<open>Fetch errors\<close>

theorem fetch_error_not_delivered_counterexample:
  "effects (monitor_tweets ascii_tables (ustr ''nasa'') 7 None []
      [\<lparr>http = Raises RequestException, timestamp = (ustr ''2024-01-01 00:00:00 IST''), io_time = 1\<rparr>]) =
     [LogStarted, LogFetchError, Sleep 5] \<and>
   sent (effects (monitor_tweets ascii_tables (ustr ''nasa'') 7 None []
      [\<lparr>http = Raises RequestException, timestamp = (ustr ''2024-01-01 00:00:00 IST''), io_time = 1\<rparr>])) = []"
  by (simp add: monitor_tweets_def poll_def poll_try_def is_set_def)

text \<open>
  C2 (amended): in an iteration whose request fails with a \<^verbatim>\<open>RequestException\<close> the
  worker logs the error, sends no message to the chat, sleeps 5 and goes on with the next
  iteration, with \<^verbatim>\<open>latest_tweet_id\<close> unchanged. A worker whose stop event is never set
  is still in its loop after any number of such iterations, and has sent nothing.
\<close>

theorem fetch_error_logged_and_retried:
  assumes "http env = Raises RequestException" and "\<not> is_set stop_event now"
  shows "poll U u c kws l env = (l, [LogFetchError, Sleep 5]) \<and>
         monitor_loop U u c stop_event kws now l (env # envs) =
           (monitor_loop U u c stop_event kws (now + io_time env + 5) l envs)
             \<lparr>effects := [LogFetchError, Sleep 5] @
                 effects (monitor_loop U u c stop_event kws (now + io_time env + 5) l envs)\<rparr> \<and>
         ((\<forall>e \<in> set errs. http e = Raises RequestException) \<longrightarrow>
            stopped_at (monitor_loop U u c None kws now l errs) = None \<and>
            sent (effects (monitor_loop U u c None kws now l errs)) = [])"
  using assms fetch_errors_only [of errs U u c kws now l]
  by (simp add: monitor_loop_step poll_fetch_error Let_def del: monitor_loop.simps)

theorem fetch_error_logged_and_retried_witness:
  "\<not> is_set (Some 100) 0 \<and>
   poll ascii_tables (ustr ''nasa'') 7 [ustr ''launch''] (Some (JStr (ustr ''41'')))
     \<lparr>http = Raises RequestException, timestamp = (ustr ''t''), io_time = 2\<rparr> =
     (Some (JStr (ustr ''41'')), [LogFetchError, Sleep 5]) \<and>
   monitor_loop ascii_tables (ustr ''nasa'') 7 (Some 100) [ustr ''launch''] 0 (Some (JStr (ustr ''41'')))
     [\<lparr>http = Raises RequestException, timestamp = (ustr ''t''), io_time = 2\<rparr>] =
     \<lparr>stopped_at = None, latest = Some (JStr (ustr ''41'')), effects = [LogFetchError, Sleep 5]\<rparr> \<and>
   stopped_at (monitor_loop ascii_tables (ustr ''nasa'') 7 None [ustr ''launch''] 0 (Some (JStr (ustr ''41'')))
     [\<lparr>http = Raises RequestException, timestamp = (ustr ''t''), io_time = 2\<rparr>,
      \<lparr>http = Raises RequestException, timestamp = (ustr ''t''), io_time = 2\<rparr>]) = None"
proof -
  let ?env = "\<lparr>http = Raises RequestException, timestamp = (ustr ''t''), io_time = 2\<rparr>"
  have h1: "http ?env = Raises RequestException" by simp
  have h2: "\<not> is_set (Some 100) 0" by (simp add: is_set_def)
  have h3: "\<forall>e \<in> set [?env, ?env]. http e = Raises RequestException" by simp
  note t = fetch_error_logged_and_retried
             [OF h1 h2, of ascii_tables "ustr ''nasa''" 7 "[ustr ''launch'']"
                "Some (JStr (ustr ''41''))" "[]" "[?env, ?env]"]
  from t have "poll ascii_tables (ustr ''nasa'') 7 [ustr ''launch''] (Some (JStr (ustr ''41''))) ?env =
      (Some (JStr (ustr ''41'')), [LogFetchError, Sleep 5])"
    by (rule conjunct1)
  moreover from t
  have "monitor_loop ascii_tables (ustr ''nasa'') 7 (Some 100) [ustr ''launch''] 0 (Some (JStr (ustr ''41''))) [?env] =
      \<lparr>stopped_at = None, latest = Some (JStr (ustr ''41'')), effects = [LogFetchError, Sleep 5]\<rparr>"
    by (simp add: is_set_def)
  moreover from t h3
  have "stopped_at (monitor_loop ascii_tables (ustr ''nasa'') 7 None [ustr ''launch''] 0 (Some (JStr (ustr ''41'')))
          [?env, ?env]) = None"
    by blast
  ultimately show ?thesis using h2 by simp
qed

subsection \<open>The stop event and the sleep\<close>

theorem sleep_not_interrupted_counterexample:
  "stopped_at (monitor_tweets ascii_tables (ustr ''nasa'') 7 (Some 1) []
      [\<lparr>http = Returns JNull, timestamp = [], io_time = 0\<rparr>]) = Some 5 \<and>
   effects (monitor_tweets ascii_tables (ustr ''nasa'') 7 (Some 1) []
      [\<lparr>http = Returns JNull, timestamp = [], io_time = 0\<rparr>]) =
     [LogStarted, Sleep 5, LogStopped]"
  by (simp add: monitor_tweets_def poll_def poll_try_def is_set_def)

text \<open>
  C7 (amended): when the stop event is set while the worker sleeps at the end of an
  iteration (after the blocking calls of the iteration, not later than the end of the 5
  units), the worker finishes the whole sleep: the iteration ends with \<^verbatim>\<open>time.sleep(5)\<close>
  as in any other iteration, and the worker leaves the loop at the test that follows,
  5 units after the sleep began.
\<close>

theorem stop_observed_after_full_sleep:
  assumes "now + io_time env < t" and "t \<le> now + io_time env + 5"
  shows "stopped_at (monitor_loop U u c (Some t) kws now l (env # envs)) = Some (now + io_time env + 5) \<and>
         effects (monitor_loop U u c (Some t) kws now l (env # envs)) =
           snd (poll U u c kws l env) @ [LogStopped] \<and>
         (\<exists>pre. snd (poll U u c kws l env) = pre @ [Sleep 5] \<and> elapsed pre = 0)"
proof -
  have a: "\<not> is_set (Some t) now" using assms by (simp add: is_set_def)
  have b: "is_set (Some t) (now + io_time env + 5)" using assms by (simp add: is_set_def)
  have "monitor_loop U u c (Some t) kws (now + io_time env + 5) l' envs =
      \<lparr>stopped_at = Some (now + io_time env + 5), latest = l', effects = [LogStopped]\<rparr>" for l'
    using b by (cases envs) simp_all
  then show ?thesis
    using a poll_sleeps [of U u c kws l env]
    by (simp add: monitor_loop_step Let_def del: monitor_loop.simps)
qed

theorem stop_observed_after_full_sleep_witness:
  "(0::nat) + 0 < 1 \<and> (1::nat) \<le> 0 + 0 + 5 \<and>
   stopped_at (monitor_loop ascii_tables (ustr ''nasa'') 7 (Some 1) [] 0 None
      [\<lparr>http = Returns JNull, timestamp = [], io_time = 0\<rparr>]) = Some 5 \<and>
   effects (monitor_loop ascii_tables (ustr ''nasa'') 7 (Some 1) [] 0 None
      [\<lparr>http = Returns JNull, timestamp = [], io_time = 0\<rparr>]) = [Sleep 5, LogStopped]"
proof -
  let ?env = "\<lparr>http = Returns JNull, timestamp = [], io_time = 0\<rparr>"
  have h1: "0 + io_time ?env < 1" by simp
  have h2: "1 \<le> 0 + io_time ?env + 5" by simp
  have p: "poll ascii_tables (ustr ''nasa'') 7 [] None ?env = (None, [Sleep 5])"
    by (simp add: poll_def poll_try_def)
  show ?thesis
    using stop_observed_after_full_sleep [OF h1 h2, of ascii_tables "ustr ''nasa''" 7 "[]" None "[]"] by (simp add: p)
qed

subsection \<open>The keyword filter\<close>

text \<open>
  C4: for a response that holds a non-empty item, a tweet that is new is skipped exactly
  when the keywords are not empty and none of them occurs, case ignored, as a substring of
  the text; the skip leaves \<^verbatim>\<open>latest_tweet_id\<close> as it was and sends nothing. With no
  keywords every new tweet is sent. This holds for every text, all keywords and all
  tables. The keyword \<^verbatim>\<open>launch\<close> matches the text \<^verbatim>\<open>Big Launch Today\<close> and does not
  match \<^verbatim>\<open>Nothing interesting\<close>.
\<close>

theorem keyword_filter_decision:
  assumes "http env = Returns d" and "has_item d tweet_text tid"
  shows "poll U u c kws l env =
     (if is_new l tid then
        (if kws = [] \<or> keyword_match U kws tweet_text
         then (Some tid,
               [Send (NewTweet (timestamp env) u tid (retweet_text tweet_text)
                        (hashtags_text U tweet_text) tweet_text) c,
                Sleep 5])
         else (l, [LogSkipped tid, Sleep 5]))
      else (l, [Sleep 5])) \<and>
    (keyword_match U kws tweet_text \<longleftrightarrow>
       (\<exists>keyword \<in> set kws. \<exists>pre post. lower U tweet_text = pre @ lower U keyword @ post)) \<and>
    (agrees_on_ascii U \<longrightarrow>
       keyword_match U [ustr ''launch''] (ustr ''Big Launch Today'') \<and>
       \<not> keyword_match U [ustr ''launch''] (ustr ''Nothing interesting''))"
proof -
  have "keyword_match U [ustr ''launch''] (ustr ''Big Launch Today'') \<and>
        \<not> keyword_match U [ustr ''launch''] (ustr ''Nothing interesting'')"
    if U: "agrees_on_ascii U"
  proof -
    have k: "list_all (list_all ascii) [ustr ''launch'']"
      by (simp add: ascii_eval)
    have "list_all ascii (ustr ''Big Launch Today'')"
      by (simp add: ascii_eval)
    then have a: "keyword_match U [ustr ''launch''] (ustr ''Big Launch Today'') =
        keyword_match ascii_tables [ustr ''launch''] (ustr ''Big Launch Today'')"
      using U k by (simp add: keyword_match_ascii)
    have "list_all ascii (ustr ''Nothing interesting'')"
      by (simp add: ascii_eval)
    then have b: "keyword_match U [ustr ''launch''] (ustr ''Nothing interesting'') =
        keyword_match ascii_tables [ustr ''launch''] (ustr ''Nothing interesting'')"
      using U k by (simp add: keyword_match_ascii)
    have "keyword_match ascii_tables [ustr ''launch''] (ustr ''Big Launch Today'')"
      by (simp add: keyword_match_def ascii_eval)
    moreover have "\<not> keyword_match ascii_tables [ustr ''launch''] (ustr ''Nothing interesting'')"
      by (simp add: keyword_match_def ascii_eval)
    ultimately show ?thesis using a b by simp
  qed
  then show ?thesis
    using poll_item [OF assms, of U u c kws l] keyword_match_iff [of U kws tweet_text]
    by simp
qed

text \<open>
  The theorem at two tables: the ASCII one, with the two texts of the specification, and
  one in which \<^verbatim>\<open>lower\<close> also turns the capital E with acute accent (code point 201)
  into the small one (233), with a keyword and a text that hold these letters.
\<close>

theorem keyword_filter_decision_witness:
  "poll ascii_tables (ustr ''nasa'') 7 [ustr ''launch''] (Some (JStr (ustr ''41'')))
     \<lparr>http = Returns (response_with (JStr (ustr ''Big Launch Today'')) (JStr (ustr ''42''))),
      timestamp = ustr ''now'', io_time = 1\<rparr> =
     (Some (JStr (ustr ''42'')),
      [Send (NewTweet (ustr ''now'') (ustr ''nasa'') (JStr (ustr ''42''))
               (ustr ''Original Tweet'') (ustr ''None'') (ustr ''Big Launch Today'')) 7,
       Sleep 5]) \<and>
   poll ascii_tables (ustr ''nasa'') 7 [ustr ''launch''] (Some (JStr (ustr ''41'')))
     \<lparr>http = Returns (response_with (JStr (ustr ''Nothing interesting'')) (JStr (ustr ''42''))),
      timestamp = ustr ''now'', io_time = 1\<rparr> =
     (Some (JStr (ustr ''41'')), [LogSkipped (JStr (ustr ''42'')), Sleep 5]) \<and>
   poll ascii_tables (ustr ''nasa'') 7 [] (Some (JStr (ustr ''41'')))
     \<lparr>http = Returns (response_with (JStr (ustr ''Nothing interesting'')) (JStr (ustr ''42''))),
      timestamp = ustr ''now'', io_time = 1\<rparr> =
     (Some (JStr (ustr ''42'')),
      [Send (NewTweet (ustr ''now'') (ustr ''nasa'') (JStr (ustr ''42''))
               (ustr ''Original Tweet'') (ustr ''None'') (ustr ''Nothing interesting'')) 7,
       Sleep 5]) \<and>
   poll (ascii_tables\<lparr>lower := map (\<lambda>c. if c = 201 then 233 else ascii_lower c)\<rparr>)
     (ustr ''nasa'') 7 [ustr ''CAF'' @ [201]] None
     \<lparr>http = Returns (response_with (JStr (ustr ''Un caf'' @ [233] @ ustr '' ouvert''))
                       (JStr (ustr ''42''))),
      timestamp = ustr ''now'', io_time = 1\<rparr> =
     (Some (JStr (ustr ''42'')),
      [Send (NewTweet (ustr ''now'') (ustr ''nasa'') (JStr (ustr ''42''))
               (ustr ''Original Tweet'') (ustr ''None'')
               (ustr ''Un caf'' @ [233] @ ustr '' ouvert'')) 7,
       Sleep 5])"
proof -
  let ?V = "ascii_tables\<lparr>lower := map (\<lambda>c. if c = 201 then 233 else ascii_lower c)\<rparr>"
  let ?t3 = "ustr ''Un caf'' @ [233] @ ustr '' ouvert''"
  let ?d1 = "response_with (JStr (ustr ''Big Launch Today'')) (JStr (ustr ''42''))"
  let ?d2 = "response_with (JStr (ustr ''Nothing interesting'')) (JStr (ustr ''42''))"
  let ?d3 = "response_with (JStr ?t3) (JStr (ustr ''42''))"
  let ?e1 = "\<lparr>http = Returns ?d1, timestamp = ustr ''now'', io_time = 1\<rparr>"
  let ?e2 = "\<lparr>http = Returns ?d2, timestamp = ustr ''now'', io_time = 1\<rparr>"
  let ?e3 = "\<lparr>http = Returns ?d3, timestamp = ustr ''now'', io_time = 1\<rparr>"
  have new: "is_new (Some (JStr (ustr ''41''))) (JStr (ustr ''42''))"
    by (simp add: is_new_def)
  have new3: "is_new None (JStr (ustr ''42''))"
    by (simp add: is_new_def)
  have i1: "has_item ?d1 (ustr ''Big Launch Today'') (JStr (ustr ''42''))"
    by (simp add: has_item_response_with)
  have i2: "has_item ?d2 (ustr ''Nothing interesting'') (JStr (ustr ''42''))"
    by (simp add: has_item_response_with)
  have i3: "has_item ?d3 ?t3 (JStr (ustr ''42''))"
    by (simp add: has_item_response_with)
  have h1: "http ?e1 = Returns ?d1" by simp
  have h2: "http ?e2 = Returns ?d2" by simp
  have h3: "http ?e3 = Returns ?d3" by simp
  have r: "retweet_text (ustr ''Big Launch Today'') = ustr ''Original Tweet''"
     "hashtags_text ascii_tables (ustr ''Big Launch Today'') = ustr ''None''"
     "retweet_text (ustr ''Nothing interesting'') = ustr ''Original Tweet''"
     "hashtags_text ascii_tables (ustr ''Nothing interesting'') = ustr ''None''"
     "retweet_text ?t3 = ustr ''Original Tweet''"
     "hashtags_text ?V ?t3 = ustr ''None''"
    by (simp_all add: retweet_text_def retweet_flag_def hashtags_text_def ascii_eval)
  have m: "keyword_match ascii_tables [ustr ''launch''] (ustr ''Big Launch Today'')"
     "\<not> keyword_match ascii_tables [ustr ''launch''] (ustr ''Nothing interesting'')"
     "keyword_match ?V [ustr ''CAF'' @ [201]] ?t3"
    by (simp_all add: keyword_match_def ascii_eval)
  have a: "poll ascii_tables (ustr ''nasa'') 7 [ustr ''launch''] (Some (JStr (ustr ''41''))) ?e1 =
     (Some (JStr (ustr ''42'')),
      [Send (NewTweet (ustr ''now'') (ustr ''nasa'') (JStr (ustr ''42''))
               (ustr ''Original Tweet'') (ustr ''None'') (ustr ''Big Launch Today'')) 7,
       Sleep 5])"
    using keyword_filter_decision
            [OF h1 i1, of ascii_tables "ustr ''nasa''" 7 "[ustr ''launch'']"
               "Some (JStr (ustr ''41''))", THEN conjunct1] new
    by (simp add: r m)
  have b: "poll ascii_tables (ustr ''nasa'') 7 [ustr ''launch''] (Some (JStr (ustr ''41''))) ?e2 =
     (Some (JStr (ustr ''41'')), [LogSkipped (JStr (ustr ''42'')), Sleep 5])"
    using keyword_filter_decision
            [OF h2 i2, of ascii_tables "ustr ''nasa''" 7 "[ustr ''launch'']"
               "Some (JStr (ustr ''41''))", THEN conjunct1] new
    by (simp add: m)
  have c: "poll ascii_tables (ustr ''nasa'') 7 [] (Some (JStr (ustr ''41''))) ?e2 =
     (Some (JStr (ustr ''42'')),
      [Send (NewTweet (ustr ''now'') (ustr ''nasa'') (JStr (ustr ''42''))
               (ustr ''Original Tweet'') (ustr ''None'') (ustr ''Nothing interesting'')) 7,
       Sleep 5])"
    using keyword_filter_decision
            [OF h2 i2, of ascii_tables "ustr ''nasa''" 7 "[]" "Some (JStr (ustr ''41''))",
             THEN conjunct1] new
    by (simp add: r)
  have d: "poll ?V (ustr ''nasa'') 7 [ustr ''CAF'' @ [201]] None ?e3 =
     (Some (JStr (ustr ''42'')),
      [Send (NewTweet (ustr ''now'') (ustr ''nasa'') (JStr (ustr ''42''))
               (ustr ''Original Tweet'') (ustr ''None'') ?t3) 7,
       Sleep 5])"
    using keyword_filter_decision
            [OF h3 i3, of ?V "ustr ''nasa''" 7 "[ustr ''CAF'' @ [201]]" None,
             THEN conjunct1] new3 r(5,6) m(3)
    by simp
  from a b c d show ?thesis by simp
qed

subsection \<open>The first fetch\<close>

text \<open>
  C10: while \<^verbatim>\<open>latest_tweet_id\<close> is still \<^verbatim>\<open>None\<close>, a response that holds a non-empty
  item passing the keyword filter is notified, whenever the tweet was written, and
  \<^verbatim>\<open>latest_tweet_id\<close> becomes its id; so it is for the first iteration of a worker.
\<close>

theorem first_fetch_notifies:
  assumes "http env = Returns d" and "has_item d tweet_text tid"
    and "kws = [] \<or> keyword_match U kws tweet_text"
  shows "poll U u c kws None env =
     (Some tid,
      [Send (NewTweet (timestamp env) u tid (retweet_text tweet_text)
               (hashtags_text U tweet_text) tweet_text) c,
       Sleep 5]) \<and>
    monitor_tweets U u c None kws [env] =
     \<lparr>stopped_at = None, latest = Some tid,
      effects = [LogStarted,
        Send (NewTweet (timestamp env) u tid (retweet_text tweet_text)
                (hashtags_text U tweet_text) tweet_text) c,
        Sleep 5]\<rparr>"
proof -
  have "poll U u c kws None env =
     (Some tid,
      [Send (NewTweet (timestamp env) u tid (retweet_text tweet_text)
               (hashtags_text U tweet_text) tweet_text) c,
       Sleep 5])"
    using poll_item [OF assms(1,2), of U u c kws None] assms(3) by (simp add: is_new_def)
  then show ?thesis
    by (simp add: monitor_tweets_def is_set_def)
qed

theorem first_fetch_notifies_witness:
  "monitor_tweets ascii_tables (ustr ''nasa'') 7 None [ustr ''news'']
     [\<lparr>http = Returns (response_with (JStr (ustr ''RT check this out #space #news'')) (JStr (ustr ''42''))),
       timestamp = (ustr ''now''), io_time = 1\<rparr>] =
     \<lparr>stopped_at = None, latest = Some (JStr (ustr ''42'')),
      effects = [LogStarted,
        Send (NewTweet (ustr ''now'') (ustr ''nasa'') (JStr (ustr ''42'')) (ustr ''Retweet'') (ustr ''#space, #news'')
                (ustr ''RT check this out #space #news'')) 7,
        Sleep 5]\<rparr>"
proof -
  let ?d = "response_with (JStr (ustr ''RT check this out #space #news'')) (JStr (ustr ''42''))"
  let ?e = "\<lparr>http = Returns ?d, timestamp = (ustr ''now''), io_time = 1\<rparr>"
  have h: "http ?e = Returns ?d" by simp
  have i: "has_item ?d (ustr ''RT check this out #space #news'') (JStr (ustr ''42''))"
    by (simp add: has_item_response_with)
  have k: "[ustr ''news''] = [] \<or> keyword_match ascii_tables [ustr ''news''] (ustr ''RT check this out #space #news'')"
    by (simp add: keyword_match_def ascii_eval)
  have r: "retweet_text (ustr ''RT check this out #space #news'') = (ustr ''Retweet'')"
     "hashtags_text ascii_tables (ustr ''RT check this out #space #news'') = (ustr ''#space, #news'')"
    by (simp_all add: retweet_text_def retweet_flag_def hashtags_text_def ascii_eval)
  show ?thesis
    using first_fetch_notifies [OF h i k, of "ustr ''nasa''" 7] by (simp add: r)
qed

subsection \<open>Increasing ids\<close>

lemma distinct_remdups_adj_increasing:
  assumes irrefl: "irreflp lt" and trans: "transp lt"
    and "sorted_wrt (\<lambda>a b. lt a b \<or> a = b) xs"
  shows "distinct (remdups_adj xs)"
  using assms(3)
proof (induction xs rule: remdups_adj.induct)
  case 1
  show ?case by simp
next
  case (2 x)
  show ?case by simp
next
  case (3 x y xs)
  show ?case
  proof (cases "x = y")
    case True
    with 3 show ?thesis by simp
  next
    case False
    with "3.prems" have xy: "lt x y" by simp
    have "x \<noteq> z" if "z \<in> set xs" for z
    proof
      assume "x = z"
      with that "3.prems" have "lt y x \<or> y = x" by auto
      with False have "lt y x" by auto
      with xy have "lt x x" using trans by (blast dest: transpD)
      with irrefl show False by (blast dest: irreflpD)
    qed
    then have "x \<notin> set (remdups_adj (y # xs))"
      using False by auto
    moreover have "distinct (remdups_adj (y # xs))"
      using False 3 by simp
    ultimately show ?thesis using False by simp
  qed
qed

lemma filtered_item_skipped:
  assumes "agrees_on_ascii U"
  shows "notified (effects (monitor_tweets U u c None [ustr ''launch'']
      [\<lparr>http = Returns (response_with (JStr (ustr ''Nothing interesting'')) tid),
        timestamp = ts, io_time = t\<rparr>])) = [] \<and>
   latest (monitor_tweets U u c None [ustr ''launch'']
      [\<lparr>http = Returns (response_with (JStr (ustr ''Nothing interesting'')) tid),
        timestamp = ts, io_time = t\<rparr>]) = None"
proof -
  have "list_all ascii (ustr ''Nothing interesting'')"
    and "list_all (list_all ascii) [ustr ''launch'']"
    by (simp_all add: ascii_eval)
  then have "keyword_match U [ustr ''launch''] (ustr ''Nothing interesting'') =
      keyword_match ascii_tables [ustr ''launch''] (ustr ''Nothing interesting'')"
    using assms by (simp add: keyword_match_ascii)
  also have "\<dots> = False"
    by (simp add: keyword_match_def ascii_eval)
  finally have "\<not> keyword_match U [ustr ''launch''] (ustr ''Nothing interesting'')"
    by simp
  then show ?thesis
    by (simp add: monitor_tweets_def is_set_def poll_def poll_try_def keyword_skip_def)
qed

theorem filtered_item_not_notified_counterexample:
  "notified (effects (monitor_tweets ascii_tables (ustr ''nasa'') 7 None [ustr ''launch'']
      [\<lparr>http = Returns (response_with (JStr (ustr ''Nothing interesting'')) (JStr (ustr ''42''))),
        timestamp = (ustr ''now''), io_time = 1\<rparr>])) = [] \<and>
   latest (monitor_tweets ascii_tables (ustr ''nasa'') 7 None [ustr ''launch'']
      [\<lparr>http = Returns (response_with (JStr (ustr ''Nothing interesting'')) (JStr (ustr ''42''))),
        timestamp = (ustr ''now''), io_time = 1\<rparr>]) = None"
  by (simp add: monitor_tweets_def is_set_def poll_def poll_try_def keyword_skip_def
      keyword_match_def ascii_eval)

text \<open>
  C3 (amended): a worker that is not stopped receives, one response an iteration,
  non-empty items with string ids that never decrease in a strict order (the ids
  increase strictly from one item to the next, and an item may be fetched again in the
  iterations that follow it), every one of them passing the keyword filter (as all do when
  there are no keywords). Then every id is notified exactly once, in the order of the
  sequence, and after each iteration \<^verbatim>\<open>latest_tweet_id\<close> is the id just fetched.
\<close>

theorem increasing_ids_notified_once:
  fixes lt :: "pystr \<Rightarrow> pystr \<Rightarrow> bool"
  assumes "irreflp lt" and "transp lt"
    and "sorted_wrt (\<lambda>a b. lt a b \<or> a = b) (map snd items)"
    and "list_all2 (\<lambda>env item. \<exists>d. http env = Returns d \<and> has_item d (fst item) (JStr (snd item)))
           envs items"
    and "\<forall>item \<in> set items. kws = [] \<or> keyword_match U kws (fst item)"
  shows "notified (effects (monitor_tweets U u c None kws envs)) =
           map JStr (remdups_adj (map snd items)) \<and>
         distinct (notified (effects (monitor_tweets U u c None kws envs))) \<and>
         set (notified (effects (monitor_tweets U u c None kws envs))) = JStr ` set (map snd items) \<and>
         (\<forall>n. 0 < n \<and> n \<le> length items \<longrightarrow>
            latest (monitor_tweets U u c None kws (take n envs)) =
              Some (JStr (snd (items ! (n - 1)))))"
proof -
  have run: "notified (effects (monitor_tweets U u c None kws envs)) =
           map JStr (remdups_adj (map snd items))"
    using loop_items [OF assms(4,5), of u c 0] by (simp add: monitor_tweets_def Let_def)
  have "inj_on JStr A" for A by (simp add: inj_on_def)
  then have dist: "distinct (notified (effects (monitor_tweets U u c None kws envs)))"
    using distinct_remdups_adj_increasing [of lt "map snd items", OF assms(1,2,3)]
    by (simp add: run distinct_map)
  have ids: "set (notified (effects (monitor_tweets U u c None kws envs))) = JStr ` set (map snd items)"
    by (simp add: run)
  have "latest (monitor_tweets U u c None kws (take n envs)) = Some (JStr (snd (items ! (n - 1))))"
    if n: "0 < n \<and> n \<le> length items" for n
  proof -
    have a: "list_all2 (\<lambda>env item. \<exists>d. http env = Returns d \<and> has_item d (fst item) (JStr (snd item)))
           (take n envs) (take n items)"
      using assms(4) by (rule list_all2_takeI)
    have b: "\<forall>item \<in> set (take n items). kws = [] \<or> keyword_match U kws (fst item)"
      using assms(5) by (auto dest: in_set_takeD)
    have ne: "take n items \<noteq> []" using n by auto
    have len: "length (take n items) = n" using n by simp
    have "last (take n items) = take n items ! (n - 1)"
      using ne len by (simp add: last_conv_nth)
    also have "\<dots> = items ! (n - 1)" using n by simp
    finally have "last (take n items) = items ! (n - 1)" .
    then show ?thesis
      using loop_items [OF a b, of u c 0] ne by (simp add: monitor_tweets_def Let_def)
  qed
  with run dist ids show ?thesis by blast
qed

theorem increasing_ids_notified_once_witness:
  "notified (effects (monitor_tweets ascii_tables (ustr ''nasa'') 7 None [ustr ''launch'']
      [\<lparr>http = Returns (response_with (JStr (ustr ''Launch day'')) (JStr (ustr ''9''))), timestamp = (ustr ''t1''), io_time = 1\<rparr>,
       \<lparr>http = Returns (response_with (JStr (ustr ''Launch day'')) (JStr (ustr ''9''))), timestamp = (ustr ''t2''), io_time = 1\<rparr>,
       \<lparr>http = Returns (response_with (JStr (ustr ''second launch'')) (JStr (ustr ''10''))), timestamp = (ustr ''t3''), io_time = 1\<rparr>])) =
     [JStr (ustr ''9''), JStr (ustr ''10'')] \<and>
   latest (monitor_tweets ascii_tables (ustr ''nasa'') 7 None [ustr ''launch'']
      [\<lparr>http = Returns (response_with (JStr (ustr ''Launch day'')) (JStr (ustr ''9''))), timestamp = (ustr ''t1''), io_time = 1\<rparr>,
       \<lparr>http = Returns (response_with (JStr (ustr ''Launch day'')) (JStr (ustr ''9''))), timestamp = (ustr ''t2''), io_time = 1\<rparr>,
       \<lparr>http = Returns (response_with (JStr (ustr ''second launch'')) (JStr (ustr ''10''))), timestamp = (ustr ''t3''), io_time = 1\<rparr>]) =
     Some (JStr (ustr ''10''))"
proof -
  let ?envs = "[\<lparr>http = Returns (response_with (JStr (ustr ''Launch day'')) (JStr (ustr ''9''))), timestamp = (ustr ''t1''), io_time = 1\<rparr>,
       \<lparr>http = Returns (response_with (JStr (ustr ''Launch day'')) (JStr (ustr ''9''))), timestamp = (ustr ''t2''), io_time = 1\<rparr>,
       \<lparr>http = Returns (response_with (JStr (ustr ''second launch'')) (JStr (ustr ''10''))), timestamp = (ustr ''t3''), io_time = 1\<rparr>]"
  let ?items = "[(ustr ''Launch day'', ustr ''9''), (ustr ''Launch day'', ustr ''9''), (ustr ''second launch'', ustr ''10'')]"
  let ?lt = "\<lambda>a b :: pystr. length a < length b"
  have h1: "irreflp ?lt" by (simp add: irreflp_def)
  have h2: "transp ?lt" by (auto simp: transp_def)
  have h3: "sorted_wrt (\<lambda>a b. ?lt a b \<or> a = b) (map snd ?items)" by simp
  have h4: "list_all2 (\<lambda>env item. \<exists>d. http env = Returns d \<and> has_item d (fst item) (JStr (snd item)))
           ?envs ?items"
    by (simp add: has_item_response_with)
  have h5: "\<forall>item \<in> set ?items. [ustr ''launch''] = [] \<or> keyword_match ascii_tables [ustr ''launch''] (fst item)"
    by (simp add: keyword_match_def ascii_eval)
  note t = increasing_ids_notified_once [of ?lt ?items ?envs "[ustr ''launch'']" ascii_tables "ustr ''nasa''" 7,
             OF h1 h2 h3 h4 h5]
  have "notified (effects (monitor_tweets ascii_tables (ustr ''nasa'') 7 None [ustr ''launch''] ?envs)) = [JStr (ustr ''9''), JStr (ustr ''10'')]"
    using t by simp
  moreover have "latest (monitor_tweets ascii_tables (ustr ''nasa'') 7 None [ustr ''launch''] ?envs) = Some (JStr (ustr ''10''))"
  proof -
    from t have "(0::nat) < 3 \<and> 3 \<le> length ?items \<longrightarrow>
        latest (monitor_tweets ascii_tables (ustr ''nasa'') 7 None [ustr ''launch''] (take 3 ?envs)) =
          Some (JStr (snd (?items ! (3 - 1))))"
      by blast
    then show ?thesis by simp
  qed
  ultimately show ?thesis by simp
qed

end
